theory Spec2Isabelle
  imports
    Main
    "HOL-Library.Char_ord"
    "HOL-Library.List_Lexorder"
    "HOL-Library.Word"
begin

section \<open>Strings\<close>

text \<open>
  Go strings are byte sequences, compared byte by byte (unsigned) and then by length.
  They are modelled as \<open>string\<close>, a list of 8-bit characters; \<open>(<)\<close> and \<open>(\<le>)\<close> on
  \<open>string\<close> are the lexicographic order over the character codes, which is the order of
  Go's \<open>s < t\<close> and \<open>s >= t\<close>. The four functions of package \<open>strings\<close> that the handler
  calls are written out as the standard library defines them.
\<close>

definition HasPrefix :: "string \<Rightarrow> string \<Rightarrow> bool" where
  "HasPrefix s pre = (length pre \<le> length s \<and> take (length pre) s = pre)"

definition HasSuffix :: "string \<Rightarrow> string \<Rightarrow> bool" where
  "HasSuffix s suf = (length suf \<le> length s \<and> drop (length s - length suf) s = suf)"

definition TrimPrefix :: "string \<Rightarrow> string \<Rightarrow> string" where
  "TrimPrefix s pre = (if HasPrefix s pre then drop (length pre) s else s)"

definition TrimSuffix :: "string \<Rightarrow> string \<Rightarrow> string" where
  "TrimSuffix s suf = (if HasSuffix s suf then take (length s - length suf) s else s)"

text \<open>\<open>fmt.Sprintf("%d", n)\<close> for a non-negative \<open>n\<close>: the decimal digits.\<close>

function decimal :: "nat \<Rightarrow> string" where
  "decimal n =
     (if n < 10 then [''0123456789'' ! n]
      else decimal (n div 10) @ [''0123456789'' ! (n mod 10)])"
  by pat_completeness auto
termination
  by (relation "measure (\<lambda>n. n)") auto

section \<open>Data model\<close>

text \<open>
  \<open>entry\<close> is the anonymous struct of the values of \<open>config.Paths\<close>. A Go map has no
  iteration order of its own: \<open>Paths\<close> is the association list of the map in the order in
  which the \<open>range\<close> loop of \<open>InitHandler\<close> happens to visit it (its keys are pairwise
  distinct, being the keys of a map). \<open>CacheAge\<close> is a \<open>*int64\<close>: \<open>None\<close> is \<open>nil\<close>.
\<close>

record entry =
  Repo :: string
  Display :: string
  VCS :: string

record config =
  Host :: string
  CacheAge :: "64 word option"
  Paths :: "(string \<times> entry) list"

record pathConfig =
  path :: string
  repo :: string
  display :: string
  vcs :: string

type_synonym pathConfigSet = "pathConfig list"

record Handler =
  host :: string
  cacheControl :: string
  paths :: pathConfigSet

section \<open>Resolution: \<open>pathConfigSet.find\<close>\<close>

text \<open>
  \<open>sort.Search(n, f)\<close> of the Go standard library: the binary search loop
  \<open>i, j := 0, n; for i < j { h := (i+j)/2; if !f(h) { i = h+1 } else { j = h } }; return i\<close>.
  The indices are lengths of slices, so \<open>i + j\<close> does not overflow.
\<close>

function Search_loop :: "(nat \<Rightarrow> bool) \<Rightarrow> nat \<Rightarrow> nat \<Rightarrow> nat" where
  "Search_loop f i j =
     (if i < j then
        (let h = (i + j) div 2 in
         if \<not> f h then Search_loop f (h + 1) j else Search_loop f i h)
      else i)"
  by pat_completeness auto
termination
  by (relation "measure (\<lambda>(f, i, j). j - i)") auto

definition Search :: "nat \<Rightarrow> (nat \<Rightarrow> bool) \<Rightarrow> nat" where
  "Search n f = Search_loop f 0 n"

text \<open>
  The slow path of \<open>find\<close>. The loop state is the triple of the variables the loop
  assigns: \<open>subpath\<close>, \<open>lenShortestSubpath\<close> and \<open>bestMatchConfig\<close>; a \<open>*pathConfig\<close>
  pointing into the slice is the index of the element, \<open>nil\<close> is \<open>None\<close>.
  \<open>scan_step\<close> is the loop body at index \<open>i\<close>, \<open>scan_loop\<close> the loop
  \<open>for i := 0; i < max; i++\<close> from index \<open>i\<close> on (\<open>mx\<close> is the source's \<open>max\<close>).
\<close>

type_synonym scan = "string \<times> nat \<times> nat option"

definition scan_step :: "pathConfigSet \<Rightarrow> string \<Rightarrow> nat \<Rightarrow> scan \<Rightarrow> scan" where
  "scan_step pset p i st =
     (case st of (subpath, lenShortestSubpath, bestMatchConfig) \<Rightarrow>
        let ps = pset ! i in
        if length (path ps) \<ge> length p then st
        else
          let sSubpath = TrimPrefix p (path ps) in
          if length sSubpath < lenShortestSubpath then (sSubpath, length sSubpath, Some i)
          else st)"

function scan_loop :: "pathConfigSet \<Rightarrow> string \<Rightarrow> nat \<Rightarrow> nat \<Rightarrow> scan \<Rightarrow> scan" where
  "scan_loop pset p i mx st =
     (if i < mx then scan_loop pset p (i + 1) mx (scan_step pset p i st) else st)"
  by pat_completeness auto
termination
  by (relation "measure (\<lambda>(pset, p, i, mx, st). mx - i)") auto

text \<open>
  \<open>find\<close> itself. \<open>Search\<close> calls its predicate only below \<open>length pset\<close>, the exact
  test reads \<open>pset[i]\<close> only when \<open>i < len(pset)\<close>, the fast path reads \<open>pset[i-1]\<close> only
  when \<open>i > 0\<close>, and the slice expression \<open>path[len(pset[i-1].path)+1:]\<close> is evaluated
  only after \<open>HasPrefix\<close> has succeeded: no access is out of range, the function does
  not panic and has no error result.
\<close>

definition pathConfigSet_find :: "pathConfigSet \<Rightarrow> string \<Rightarrow> nat option \<times> string" where
  "pathConfigSet_find pset p =
     (let i = Search (length pset) (\<lambda>k. path (pset ! k) \<ge> p) in
      if i < length pset \<and> path (pset ! i) = p then (Some i, [])
      else if i > 0 \<and> HasPrefix p (path (pset ! (i - 1)) @ ''/'') then
        (Some (i - 1), drop (length (path (pset ! (i - 1))) + 1) p)
      else
        (case scan_loop pset p 0 i ([], length p, None) of
           (subpath, lenShortestSubpath, bestMatchConfig) \<Rightarrow> (bestMatchConfig, subpath)))"

section \<open>Configuration build: \<open>InitHandler\<close>\<close>

datatype error =
    FetchFailed
  | BadStatus nat
  | ReadFailed
  | EmptyConfig
  | ParseFailed
  | NegativeCacheAge
  | UnknownVCS string string
  | CannotInferVCS string string

text \<open>
  The errors of \<open>InitHandler\<close> that are returned after \<open>handler.host = config.Host\<close> has
  been executed: the negative cache age and the two errors of the loop over the paths.
\<close>

fun validation_error :: "error \<Rightarrow> bool" where
  "validation_error NegativeCacheAge = True"
| "validation_error (UnknownVCS k v) = True"
| "validation_error (CannotInferVCS k r) = True"
| "validation_error _ = False"

text \<open>
  The body of the loop \<open>for path, e := range config.Paths\<close> up to its \<open>append\<close>: the
  new \<open>pathConfig\<close>, or the error the body returns with.
\<close>

definition loop_body :: "string \<Rightarrow> entry \<Rightarrow> error + pathConfig" where
  "loop_body k e =
     (let pc = \<lparr>path = TrimSuffix k ''/'', repo = Repo e, display = Display e, vcs = VCS e\<rparr>;
          pc = (if Display e \<noteq> [] then pc
                else if HasPrefix (Repo e) ''https://github.com/'' then
                  pc\<lparr>display := Repo e @ '' '' @ Repo e @ ''/tree/master{/dir} '' @ Repo e
                         @ ''/blob/master{/dir}/{file}#L{line}''\<rparr>
                else if HasPrefix (Repo e) ''https://bitbucket.org'' then
                  pc\<lparr>display := Repo e @ '' '' @ Repo e @ ''/src/default{/dir} '' @ Repo e
                         @ ''/src/default{/dir}/{file}#{file}-{line}''\<rparr>
                else pc)
      in
        if VCS e \<noteq> [] then
          (if VCS e \<noteq> ''bzr'' \<and> VCS e \<noteq> ''git'' \<and> VCS e \<noteq> ''hg'' \<and> VCS e \<noteq> ''svn''
           then Inl (UnknownVCS k (VCS e))
           else Inr pc)
        else if HasPrefix (Repo e) ''https://github.com/'' then Inr (pc\<lparr>vcs := ''git''\<rparr>)
        else Inl (CannotInferVCS k (Repo e)))"

text \<open>
  The loop: each accepted entry is appended to the global \<open>handler.paths\<close> at once; an
  error returns from \<open>InitHandler\<close> with what has been appended so far.
\<close>

fun range_Paths :: "(string \<times> entry) list \<Rightarrow> Handler \<Rightarrow> Handler \<times> error option" where
  "range_Paths [] h = (h, None)"
| "range_Paths ((k, e) # rest) h =
     (case loop_body k e of
        Inl err \<Rightarrow> (h, Some err)
      | Inr pc \<Rightarrow> range_Paths rest (h\<lparr>paths := paths h @ [pc]\<rparr>))"

text \<open>
  From \<open>handler.cacheControl = ...\<close> to the end of \<open>InitHandler\<close>. \<open>sort.Sort\<close> orders the
  slice by \<open>Less\<close>, that is by \<open>path\<close>; it is not stable, so the order it leaves among
  entries of equal \<open>path\<close> is not fixed by its contract (\<open>sort_key\<close> keeps theirs).
\<close>

definition store_paths :: "64 word \<Rightarrow> config \<Rightarrow> Handler \<Rightarrow> Handler \<times> error option" where
  "store_paths cacheAge c h =
     (let h = h\<lparr>cacheControl := ''public, max-age='' @ decimal (nat (sint cacheAge))\<rparr> in
      case range_Paths (Paths c) h of
        (h, Some err) \<Rightarrow> (h, Some err)
      | (h, None) \<Rightarrow> (h\<lparr>paths := sort_key path (paths h)\<rparr>, None))"

text \<open>From \<open>handler.host = config.Host\<close> on: the parsed document is applied to the global.\<close>

definition apply_config :: "config \<Rightarrow> Handler \<Rightarrow> Handler \<times> error option" where
  "apply_config c h =
     (let h = h\<lparr>host := Host c\<rparr> in
      case CacheAge c of
        None \<Rightarrow> store_paths 86400 c h
      | Some cacheAge \<Rightarrow>
          if sint cacheAge < 0 then (h, Some NegativeCacheAge) else store_paths cacheAge c h)"

text \<open>
  The outcome of \<open>client.Get\<close>: \<open>None\<close> when it returns an error, else the response with
  its status code and what \<open>ioutil.ReadAll\<close> reads of its body (\<open>None\<close> when the read
  fails). \<open>yaml.Unmarshal\<close> is a parameter, a partial map from the raw text to the parsed
  document (\<open>None\<close>: the text does not parse). \<open>InitHandler\<close> takes the global
  \<open>handler\<close> and returns it as it leaves it, with the error it returns (\<open>None\<close> is
  \<open>nil\<close>).
\<close>

record fetched =
  StatusCode :: nat
  Body :: "string option"

definition InitHandler ::
  "(string \<rightharpoonup> config) \<Rightarrow> fetched option \<Rightarrow> Handler \<Rightarrow> Handler \<times> error option" where
  "InitHandler unmarshal res h =
     (case res of
        None \<Rightarrow> (h, Some FetchFailed)
      | Some r \<Rightarrow>
          if StatusCode r \<noteq> 200 then (h, Some (BadStatus (StatusCode r)))
          else
            (case Body r of
               None \<Rightarrow> (h, Some ReadFailed)
             | Some raw \<Rightarrow>
                 if length raw = 0 then (h, Some EmptyConfig)
                 else
                   (case unmarshal raw of
                      None \<Rightarrow> (h, Some ParseFailed)
                    | Some c \<Rightarrow> apply_config c h)))"

section \<open>Request handling: \<open>HandleImport\<close>\<close>

text \<open>
  Of the request, the handler reads \<open>r.URL.Path\<close> and \<open>r.Host\<close>. Its answer is the page
  it hands to a template, or the 404 of \<open>http.NotFound\<close>; rendering is outside the model.
\<close>

record request =
  URL_Path :: string
  Host_header :: string

record vanity =
  Import :: string
  Subpath :: string
  vRepo :: string
  vDisplay :: string
  vVCS :: string

datatype page =
    Index string "string list"
  | NotFound
  | Vanity string vanity

definition Handler_Host :: "Handler \<Rightarrow> request \<Rightarrow> string" where
  "Handler_Host h r = (if host h = [] then Host_header r else host h)"

definition serveIndex :: "Handler \<Rightarrow> request \<Rightarrow> page" where
  "serveIndex h r =
     (let host = Handler_Host h r in Index host (map (\<lambda>pc. host @ path pc) (paths h)))"

definition HandleImport :: "Handler \<Rightarrow> request \<Rightarrow> page" where
  "HandleImport h r =
     (let current = URL_Path r in
      case pathConfigSet_find (paths h) current of
        (None, subpath) \<Rightarrow> if current = ''/'' then serveIndex h r else NotFound
      | (Some i, subpath) \<Rightarrow>
          let pc = paths h ! i in
          Vanity (cacheControl h)
            \<lparr>Import = Handler_Host h r @ path pc, Subpath = subpath, vRepo = repo pc,
             vDisplay = display pc, vVCS = vcs pc\<rparr>)"

section \<open>Binary search\<close>

text \<open>
  On a predicate that is monotone below \<open>n\<close>, \<open>Search\<close> returns the least index at which
  it holds, or \<open>n\<close>. On a slice sorted by \<open>path\<close> the predicate of \<open>find\<close> is monotone.
\<close>

declare Search_loop.simps [simp del]

lemma Search_loop_spec:
  "i \<le> j \<Longrightarrow> j \<le> n \<Longrightarrow> (\<forall>k<i. \<not> f k) \<Longrightarrow> (\<forall>k. j \<le> k \<and> k < n \<longrightarrow> f k) \<Longrightarrow>
   (\<forall>k k'. k \<le> k' \<and> k' < n \<and> f k \<longrightarrow> f k') \<Longrightarrow>
     i \<le> Search_loop f i j \<and> Search_loop f i j \<le> j \<and> (\<forall>k<Search_loop f i j. \<not> f k)
       \<and> (\<forall>k. Search_loop f i j \<le> k \<and> k < n \<longrightarrow> f k)"
proof (induction f i j rule: Search_loop.induct)
  case (1 f i j)
  let ?h = "(i + j) div 2"
  show ?case
  proof (cases "i < j")
    case False
    then have "Search_loop f i j = i"
      by (subst Search_loop.simps) simp
    moreover have "i = j" using False "1.prems"(1) by simp
    ultimately show ?thesis
      using "1.prems"(3,4) by simp
  next
    case True
    have hb: "i \<le> ?h" "?h < j" using True by auto
    have hn: "?h < n" using hb(2) "1.prems"(2) by simp
    show ?thesis
    proof (cases "f ?h")
      case False
      let ?r = "Search_loop f (?h + 1) j"
      have below: "\<forall>k<?h + 1. \<not> f k"
      proof (intro allI impI)
        fix k assume "k < ?h + 1"
        then have "k \<le> ?h" by simp
        show "\<not> f k"
        proof
          assume "f k"
          with "1.prems"(5) [rule_format, of k ?h] \<open>k \<le> ?h\<close> hn have "f ?h"
            by simp
          with False show False by simp
        qed
      qed
      have eq: "Search_loop f i j = ?r"
        using True False by (subst Search_loop.simps) (simp add: Let_def)
      have "?h + 1 \<le> j" using hb by simp
      from "1.IH"(1) [OF True refl False this "1.prems"(2) below "1.prems"(4) "1.prems"(5)]
      have A: "?h + 1 \<le> ?r" "?r \<le> j" "\<forall>k<?r. \<not> f k" "\<forall>k. ?r \<le> k \<and> k < n \<longrightarrow> f k"
        by blast+
      have "i \<le> ?r" using hb(1) A(1) by linarith
      with A(2,3,4) show ?thesis unfolding eq by blast
    next
      case fh: True
      let ?r = "Search_loop f i ?h"
      have above: "\<forall>k. ?h \<le> k \<and> k < n \<longrightarrow> f k"
        using "1.prems"(5) fh by blast
      have eq: "Search_loop f i j = ?r"
        using True fh by (subst Search_loop.simps) (simp add: Let_def)
      have "?h \<le> n" using hn by simp
      from "1.IH"(2) [OF True refl _ hb(1) this "1.prems"(3) above "1.prems"(5)] fh
      have A: "i \<le> ?r" "?r \<le> ?h" "\<forall>k<?r. \<not> f k" "\<forall>k. ?r \<le> k \<and> k < n \<longrightarrow> f k"
        by blast+
      have "?r \<le> j" using hb(2) A(2) by linarith
      with A(1,3,4) show ?thesis unfolding eq by blast
    qed
  qed
qed

lemma Search_spec:
  assumes "\<forall>k k'. k \<le> k' \<and> k' < n \<and> f k \<longrightarrow> f k'"
  shows "Search n f \<le> n \<and> (\<forall>k<Search n f. \<not> f k) \<and> (\<forall>k. Search n f \<le> k \<and> k < n \<longrightarrow> f k)"
proof -
  have "(0::nat) \<le> n" "n \<le> n" "\<forall>k<(0::nat). \<not> f k" "\<forall>k. n \<le> k \<and> k < n \<longrightarrow> f k"
    by auto
  from Search_loop_spec [OF this assms] show ?thesis
    unfolding Search_def by blast
qed

lemma sorted_path_nth:
  assumes "sorted (map path pset)" and "k \<le> k'" and "k' < length pset"
  shows "path (pset ! k) \<le> path (pset ! k')"
proof -
  have "map path pset ! k \<le> map path pset ! k'"
    by (rule sorted_nth_mono [OF assms(1) assms(2)]) (simp add: assms(3))
  moreover have "k < length pset" using assms(2,3) by simp
  ultimately show ?thesis using assms(3) by simp
qed

lemma Search_sorted:
  assumes "sorted (map path pset)"
  shows "Search (length pset) (\<lambda>k. p \<le> path (pset ! k)) \<le> length pset"
    and "\<And>k. k < Search (length pset) (\<lambda>k. p \<le> path (pset ! k)) \<Longrightarrow> path (pset ! k) < p"
    and "\<And>k. Search (length pset) (\<lambda>k. p \<le> path (pset ! k)) \<le> k \<Longrightarrow> k < length pset
           \<Longrightarrow> p \<le> path (pset ! k)"
proof -
  let ?f = "\<lambda>k. p \<le> path (pset ! k)"
  have mono: "\<forall>k k'. k \<le> k' \<and> k' < length pset \<and> ?f k \<longrightarrow> ?f k'"
  proof (intro allI impI)
    fix k k' assume a: "k \<le> k' \<and> k' < length pset \<and> p \<le> path (pset ! k)"
    then have "path (pset ! k) \<le> path (pset ! k')"
      using sorted_path_nth [OF assms, of k k'] by blast
    with a show "p \<le> path (pset ! k')" using order_trans by blast
  qed
  from Search_spec [OF mono]
  have s1: "Search (length pset) ?f \<le> length pset"
    and s2: "\<forall>k<Search (length pset) ?f. \<not> ?f k"
    and s3: "\<forall>k. Search (length pset) ?f \<le> k \<and> k < length pset \<longrightarrow> ?f k"
    by blast+
  show "Search (length pset) ?f \<le> length pset" by (rule s1)
  show "\<And>k. k < Search (length pset) ?f \<Longrightarrow> path (pset ! k) < p"
    using s2 not_le by blast
  show "\<And>k. Search (length pset) ?f \<le> k \<Longrightarrow> k < length pset \<Longrightarrow> p \<le> path (pset ! k)"
    using s3 by blast
qed

lemma less_append_Cons: "(xs :: string) < xs @ c # ys"
  by (induction xs) simp_all

section \<open>The slow path finds an entry once one qualifies\<close>

text \<open>
  Invariant of the scan: \<open>lenShortestSubpath\<close> never exceeds the length of the request
  path, and equals it as long as \<open>bestMatchConfig\<close> is \<open>nil\<close>. So an index whose path is
  shorter than the request and whose \<open>TrimPrefix\<close> result is shorter than the request
  makes the pointer non-nil, and it stays non-nil.
\<close>

declare scan_loop.simps [simp del]

lemma scan_step_inv:
  assumes "l \<le> length p" and "b = None \<longrightarrow> l = length p"
    and "scan_step pset p i (s, l, b) = (s', l', b')"
  shows "l' \<le> length p \<and> (b' = None \<longrightarrow> l' = length p)"
  using assms by (auto simp: scan_step_def Let_def split: if_splits)

lemma scan_step_hit:
  assumes "l \<le> length p" and "b = None \<longrightarrow> l = length p"
    and "length (path (pset ! i)) < length p"
    and "length (TrimPrefix p (path (pset ! i))) < length p"
    and "scan_step pset p i (s, l, b) = (s', l', b')"
  shows "b' \<noteq> None"
  using assms by (auto simp: scan_step_def Let_def split: if_splits)

lemma scan_step_keeps:
  assumes "b \<noteq> None" and "scan_step pset p i (s, l, b) = (s', l', b')"
  shows "b' \<noteq> None"
  using assms by (auto simp: scan_step_def Let_def split: if_splits)

lemma scan_loop_keeps:
  "b \<noteq> None \<Longrightarrow> snd (snd (scan_loop pset p i mx (s, l, b))) \<noteq> None"
proof (induction pset p i mx "(s, l, b)" arbitrary: s l b rule: scan_loop.induct)
  case (1 pset p i mx)
  show ?case
  proof (cases "i < mx")
    case False
    then have "scan_loop pset p i mx (s, l, b) = (s, l, b)"
      by (subst scan_loop.simps) simp
    with "1.prems" show ?thesis by simp
  next
    case True
    obtain s' l' b' where st: "scan_step pset p i (s, l, b) = (s', l', b')"
      by (metis prod_cases3)
    have eq: "scan_loop pset p i mx (s, l, b) = scan_loop pset p (i + 1) mx (s', l', b')"
      using True st by (subst scan_loop.simps) simp
    have "b' \<noteq> None" by (rule scan_step_keeps [OF "1.prems" st])
    from "1.hyps" [OF True st this] show ?thesis
      unfolding eq .
  qed
qed

lemma scan_loop_hit:
  "i \<le> k \<Longrightarrow> k < mx \<Longrightarrow> l \<le> length p \<Longrightarrow> (b = None \<longrightarrow> l = length p) \<Longrightarrow>
   length (path (pset ! k)) < length p \<Longrightarrow> length (TrimPrefix p (path (pset ! k))) < length p \<Longrightarrow>
   snd (snd (scan_loop pset p i mx (s, l, b))) \<noteq> None"
proof (induction pset p i mx "(s, l, b)" arbitrary: s l b rule: scan_loop.induct)
  case (1 pset p i mx)
  have True: "i < mx" using "1.prems"(1,2) by simp
  obtain s' l' b' where st: "scan_step pset p i (s, l, b) = (s', l', b')"
    by (metis prod_cases3)
  have eq: "scan_loop pset p i mx (s, l, b) = scan_loop pset p (i + 1) mx (s', l', b')"
    using True st by (subst scan_loop.simps) simp
  note inv = scan_step_inv [OF "1.prems"(3,4) st]
  show ?case
  proof (cases "i = k")
    case True
    have "b' \<noteq> None"
      using scan_step_hit [OF "1.prems"(3,4) _ _ st] "1.prems"(5,6) True by simp
    then show ?thesis unfolding eq by (rule scan_loop_keeps)
  next
    case False
    then have "i + 1 \<le> k" using "1.prems"(1) by simp
    from "1.hyps" [OF \<open>i < mx\<close> st this "1.prems"(2) _ _ "1.prems"(5,6)] inv
    show ?thesis unfolding eq by blast
  qed
qed

lemma trailing_slash_sorted:
  assumes "sorted (map path pset)" and "k < length pset" and "path (pset ! k) \<noteq> []"
  shows "fst (pathConfigSet_find pset (path (pset ! k) @ ''/'')) \<noteq> None"
proof -
  define q where "q = path (pset ! k)"
  define r where "r = q @ ''/''"
  define i where "i = Search (length pset) (\<lambda>j. r \<le> path (pset ! j))"
  note s = Search_sorted [OF assms(1), where p = r, folded i_def]
  have "q < r" unfolding r_def by (rule less_append_Cons)
  have ki: "k < i"
  proof (rule ccontr)
    assume "\<not> k < i"
    then have "i \<le> k" by simp
    from s(3) [OF this assms(2)] have "r \<le> q" by (simp add: q_def)
    with \<open>q < r\<close> show False by simp
  qed
  have lq: "length q < length r" by (simp add: r_def)
  have "TrimPrefix r q = ''/''"
    by (simp add: TrimPrefix_def HasPrefix_def r_def)
  moreover have "q \<noteq> []" using assms(3) by (simp add: q_def)
  ultimately have lt: "length (TrimPrefix r q) < length r"
    by (simp add: r_def)
  have hit: "snd (snd (scan_loop pset r 0 i ([], length r, None))) \<noteq> None"
    by (rule scan_loop_hit [where k = k]) (use ki lq lt in \<open>simp_all add: q_def\<close>)
  obtain s' l' b' where sc: "scan_loop pset r 0 i ([], length r, None) = (s', l', b')"
    by (metis prod_cases3)
  with hit have "b' \<noteq> None" by simp
  then have "fst (pathConfigSet_find pset r) \<noteq> None"
    unfolding pathConfigSet_find_def Let_def i_def [symmetric] sc
    by simp
  then show ?thesis by (simp add: r_def q_def)
qed

section \<open>What a build stores\<close>

text \<open>
  The loop only appends to \<open>handler.paths\<close>; a build that succeeds has appended one entry
  per key of the document, its path the key without one trailing \<open>/\<close>, and has sorted
  the whole slice, the entries stored before included. A build fails as soon as the loop
  visits an entry that its body rejects.
\<close>

lemma loop_body_path: "loop_body k e = Inr pc \<Longrightarrow> path pc = TrimSuffix k ''/''"
  by (auto simp: loop_body_def Let_def split: if_splits)

lemma range_Paths_frame:
  "range_Paths ps h = (h', r) \<Longrightarrow> \<exists>new. h' = h\<lparr>paths := paths h @ new\<rparr>"
proof (induction ps arbitrary: h)
  case Nil
  then have "h' = h\<lparr>paths := paths h @ []\<rparr>" by simp
  then show ?case by blast
next
  case (Cons a ps)
  obtain k e where a: "a = (k, e)" by (cases a)
  show ?case
  proof (cases "loop_body k e")
    case (Inl err)
    with Cons.prems a have "h' = h\<lparr>paths := paths h @ []\<rparr>" by simp
    then show ?thesis by blast
  next
    case (Inr pc)
    with Cons.prems a have "range_Paths ps (h\<lparr>paths := paths h @ [pc]\<rparr>) = (h', r)"
      by simp
    from Cons.IH [OF this] obtain new where "h' = h\<lparr>paths := paths h @ [pc] @ new\<rparr>"
      by auto
    then show ?thesis by blast
  qed
qed

lemma range_Paths_ok:
  "range_Paths ps h = (h', None) \<Longrightarrow>
   map path (paths h') = map path (paths h) @ map (\<lambda>ke. TrimSuffix (fst ke) ''/'') ps"
proof (induction ps arbitrary: h)
  case Nil
  then show ?case by simp
next
  case (Cons a ps)
  obtain k e where a: "a = (k, e)" by (cases a)
  show ?case
  proof (cases "loop_body k e")
    case (Inl err)
    with Cons.prems a show ?thesis by simp
  next
    case (Inr pc)
    with Cons.prems a have "range_Paths ps (h\<lparr>paths := paths h @ [pc]\<rparr>) = (h', None)"
      by simp
    from Cons.IH [OF this] loop_body_path [OF Inr] a show ?thesis
      by simp
  qed
qed

lemma range_Paths_invalid:
  "(k, e) \<in> set ps \<Longrightarrow> isl (loop_body k e) \<Longrightarrow> snd (range_Paths ps h) \<noteq> None"
proof (induction ps arbitrary: h)
  case Nil
  then show ?case by simp
next
  case (Cons a ps)
  obtain k' e' where a: "a = (k', e')" by (cases a)
  show ?case
  proof (cases "loop_body k' e'")
    case (Inl err)
    with a show ?thesis by simp
  next
    case (Inr pc)
    with Cons.prems a have "(k, e) \<in> set ps" by auto
    from Cons.IH [OF this Cons.prems(2)] Inr a show ?thesis by simp
  qed
qed

lemma range_Paths_first_invalid:
  "\<forall>(k', e') \<in> set pre. \<not> isl (loop_body k' e') \<Longrightarrow> loop_body k e = Inl err \<Longrightarrow>
   snd (range_Paths (pre @ (k, e) # post) h) = Some err"
proof (induction pre arbitrary: h)
  case Nil
  then show ?case by simp
next
  case (Cons a pre)
  obtain k' e' where a: "a = (k', e')" by (cases a)
  with Cons.prems(1) obtain pc where pc: "loop_body k' e' = Inr pc"
    by (cases "loop_body k' e'") auto
  from Cons.prems(1) have "\<forall>(k', e') \<in> set pre. \<not> isl (loop_body k' e')" by simp
  from Cons.IH [OF this Cons.prems(2)] pc a show ?case by simp
qed

lemma distinct_map_insort_key:
  "distinct (map f (insort_key f x xs)) = distinct (map f (x # xs))"
  by (induction xs) (auto simp: set_insort_key)

lemma distinct_map_sort_key: "distinct (map f (sort_key f xs)) = distinct (map f xs)"
  by (induction xs) (simp_all add: distinct_map_insort_key)

lemma store_paths_ok:
  assumes "store_paths a c h = (h', None)"
  shows "sorted (map path (paths h'))"
    and "distinct (map path (paths h')) =
         distinct (map path (paths h) @ map (\<lambda>ke. TrimSuffix (fst ke) ''/'') (Paths c))"
proof -
  let ?h = "h\<lparr>cacheControl := ''public, max-age='' @ decimal (nat (sint a))\<rparr>"
  obtain h2 r where r: "range_Paths (Paths c) ?h = (h2, r)" by (cases "range_Paths (Paths c) ?h")
  with assms have rn: "r = None" and h': "h' = h2\<lparr>paths := sort_key path (paths h2)\<rparr>"
    by (auto simp: store_paths_def Let_def split: option.splits)
  from range_Paths_ok [OF r [unfolded rn]]
  have m: "map path (paths h2) = map path (paths h) @ map (\<lambda>ke. TrimSuffix (fst ke) ''/'') (Paths c)"
    by simp
  show "sorted (map path (paths h'))" by (simp add: h')
  show "distinct (map path (paths h')) =
         distinct (map path (paths h) @ map (\<lambda>ke. TrimSuffix (fst ke) ''/'') (Paths c))"
    unfolding m [symmetric] by (simp add: h' distinct_map_sort_key)
qed

lemma range_Paths_accepts_all:
  "\<forall>ke \<in> set ps. \<not> isl (loop_body (fst ke) (snd ke)) \<Longrightarrow>
   range_Paths ps h =
     (h\<lparr>paths := paths h @ map (\<lambda>ke. projr (loop_body (fst ke) (snd ke))) ps\<rparr>, None)"
proof (induction ps arbitrary: h)
  case Nil
  then show ?case by simp
next
  case (Cons a ps)
  obtain k0 e0 where a: "a = (k0, e0)" by (cases a)
  with Cons.prems obtain pc where pc: "loop_body k0 e0 = Inr pc"
    by (cases "loop_body k0 e0") auto
  from Cons.prems have "\<forall>ke \<in> set ps. \<not> isl (loop_body (fst ke) (snd ke))" by simp
  from Cons.IH [OF this, of "h\<lparr>paths := paths h @ [pc]\<rparr>"] pc a show ?case
    by simp
qed

lemma InitHandler_ok:
  assumes "InitHandler unmarshal res h = (h', None)"
  shows "\<exists>r raw c a. res = Some r \<and> StatusCode r = 200 \<and> Body r = Some raw \<and> raw \<noteq> []
           \<and> unmarshal raw = Some c \<and> store_paths a c (h\<lparr>host := Host c\<rparr>) = (h', None)"
  using assms
  by (auto simp: InitHandler_def apply_config_def Let_def split: option.splits if_splits)

lemma InitHandler_sorted:
  assumes "InitHandler unmarshal res h = (h', None)"
  shows "sorted (map path (paths h'))"
proof -
  from InitHandler_ok [OF assms] obtain a c
    where "store_paths a c (h\<lparr>host := Host c\<rparr>) = (h', None)" by blast
  then show ?thesis by (rule store_paths_ok(1))
qed

section \<open>Exact match\<close>

lemma exact_match_lowest:
  assumes "sorted (map path pset)" and "k < length pset"
  shows "\<exists>j\<le>k. pathConfigSet_find pset (path (pset ! k)) = (Some j, [])
           \<and> path (pset ! j) = path (pset ! k)
           \<and> (\<forall>i<j. path (pset ! i) \<noteq> path (pset ! k))"
proof -
  define p where "p = path (pset ! k)"
  define i where "i = Search (length pset) (\<lambda>j. p \<le> path (pset ! j))"
  note s = Search_sorted [OF assms(1), where p = p, folded i_def]
  have "\<not> k < i"
  proof
    assume "k < i"
    from s(2) [OF this] show False by (simp add: p_def)
  qed
  then have ik: "i \<le> k" by simp
  then have il: "i < length pset" using assms(2) by simp
  have 1: "p \<le> path (pset ! i)" using s(3) [of i] il by simp
  have 2: "path (pset ! i) \<le> p"
    unfolding p_def by (rule sorted_path_nth [OF assms(1) ik assms(2)])
  from 1 2 have eq: "path (pset ! i) = p" by simp
  have below: "\<forall>m<i. path (pset ! m) \<noteq> p"
  proof (intro allI impI)
    fix m assume "m < i"
    from s(2) [OF this] show "path (pset ! m) \<noteq> p" by simp
  qed
  have "pathConfigSet_find pset p = (Some i, [])"
    unfolding pathConfigSet_find_def Let_def i_def [symmetric] using il eq by simp
  with ik eq below show ?thesis
    unfolding p_def by blast
qed

text \<open>
  Claim C8, as amended. On an entry set sorted by \<open>path\<close>, as every successful build
  leaves it, resolving the stored path of the entry at index \<open>k\<close> returns the empty subpath
  and a pointer to the entry of lowest index that has this path, whatever the other
  entries are: the exact test comes first and no prefix candidate is looked at. The
  pointer is to the entry at \<open>k\<close> itself exactly when no entry before it has the same path,
  so always when the stored paths are pairwise distinct.
\<close>

theorem exact_match:
  assumes "sorted (map path pset)" and "k < length pset"
  shows "(\<exists>j\<le>k. pathConfigSet_find pset (path (pset ! k)) = (Some j, [])
            \<and> path (pset ! j) = path (pset ! k)
            \<and> (\<forall>i<j. path (pset ! i) \<noteq> path (pset ! k)))
       \<and> (pathConfigSet_find pset (path (pset ! k)) = (Some k, [])
            \<longleftrightarrow> (\<forall>i<k. path (pset ! i) \<noteq> path (pset ! k)))"
proof -
  from exact_match_lowest [OF assms] obtain j
    where j: "j \<le> k" "pathConfigSet_find pset (path (pset ! k)) = (Some j, [])"
      "path (pset ! j) = path (pset ! k)" "\<forall>i<j. path (pset ! i) \<noteq> path (pset ! k)"
    by blast
  have "j = k \<longleftrightarrow> (\<forall>i<k. path (pset ! i) \<noteq> path (pset ! k))"
  proof
    assume "j = k"
    with j(4) show "\<forall>i<k. path (pset ! i) \<noteq> path (pset ! k)" by simp
  next
    assume a: "\<forall>i<k. path (pset ! i) \<noteq> path (pset ! k)"
    show "j = k"
    proof (rule ccontr)
      assume "j \<noteq> k"
      with j(1) have "j < k" by simp
      with a j(3) show False by blast
    qed
  qed
  with j(2) have "pathConfigSet_find pset (path (pset ! k)) = (Some k, [])
            \<longleftrightarrow> (\<forall>i<k. path (pset ! i) \<noteq> path (pset ! k))"
    by simp
  moreover from j have "\<exists>j\<le>k. pathConfigSet_find pset (path (pset ! k)) = (Some j, [])
            \<and> path (pset ! j) = path (pset ! k)
            \<and> (\<forall>i<j. path (pset ! i) \<noteq> path (pset ! k))"
    by blast
  ultimately show ?thesis by (rule conjI [rotated])
qed

theorem exact_match_witness:
  "sorted (map path
     [\<lparr>path = ''/a'', repo = ''https://github.com/o/a'', display = ''da'', vcs = ''git''\<rparr>,
      \<lparr>path = ''/a/b'', repo = ''https://github.com/o/b'', display = ''db'', vcs = ''git''\<rparr>])
   \<and> pathConfigSet_find
     [\<lparr>path = ''/a'', repo = ''https://github.com/o/a'', display = ''da'', vcs = ''git''\<rparr>,
      \<lparr>path = ''/a/b'', repo = ''https://github.com/o/b'', display = ''db'', vcs = ''git''\<rparr>]
     ''/a/b'' = (Some 1, [])"
proof -
  let ?S = "[\<lparr>path = ''/a'', repo = ''https://github.com/o/a'', display = ''da'', vcs = ''git''\<rparr>,
      \<lparr>path = ''/a/b'', repo = ''https://github.com/o/b'', display = ''db'', vcs = ''git''\<rparr>]"
  have s: "sorted (map path ?S)" by simp
  have k: "(1::nat) < length ?S" by simp
  have d: "\<forall>i<(1::nat). path (?S ! i) \<noteq> path (?S ! 1)" by simp
  from conjunct2 [OF exact_match [OF s k]] d
  have "pathConfigSet_find ?S (path (?S ! 1)) = (Some 1, [])" by (rule iffD2)
  then have "pathConfigSet_find ?S ''/a/b'' = (Some 1, [])" by simp
  with s show ?thesis by (rule conjI)
qed

text \<open>
  Claim C8 as stated fails: from the keys \<open>/abc/\<close> and \<open>/abc\<close> the build stores two entries
  with the path \<open>/abc\<close> and different repositories; resolving the path of the second one
  returns the first.
\<close>

theorem exact_match_returns_first_duplicate:
  "InitHandler
     [''{paths: {/abc/: {repo: https://github.com/o/b, display: tmpl}, /abc: {repo: https://github.com/o/a, display: tmpl}}}'' \<mapsto>
        \<lparr>Host = [], CacheAge = None, Paths =
          [(''/abc/'', \<lparr>Repo = ''https://github.com/o/b'', Display = ''tmpl'', VCS = []\<rparr>),
           (''/abc'', \<lparr>Repo = ''https://github.com/o/a'', Display = ''tmpl'', VCS = []\<rparr>)]\<rparr>]
     (Some \<lparr>StatusCode = 200, Body = Some ''{paths: {/abc/: {repo: https://github.com/o/b, display: tmpl}, /abc: {repo: https://github.com/o/a, display: tmpl}}}''\<rparr>)
     \<lparr>host = [], cacheControl = [], paths = []\<rparr>
   = (\<lparr>host = [], cacheControl = ''public, max-age=86400'', paths =
        [\<lparr>path = ''/abc'', repo = ''https://github.com/o/b'', display = ''tmpl'', vcs = ''git''\<rparr>,
         \<lparr>path = ''/abc'', repo = ''https://github.com/o/a'', display = ''tmpl'', vcs = ''git''\<rparr>]\<rparr>, None)
   \<and> pathConfigSet_find
        [\<lparr>path = ''/abc'', repo = ''https://github.com/o/b'', display = ''tmpl'', vcs = ''git''\<rparr>,
         \<lparr>path = ''/abc'', repo = ''https://github.com/o/a'', display = ''tmpl'', vcs = ''git''\<rparr>]
        (path \<lparr>path = ''/abc'', repo = ''https://github.com/o/a'', display = ''tmpl'', vcs = ''git''\<rparr>)
      = (Some 0, [])
   \<and> [\<lparr>path = ''/abc'', repo = ''https://github.com/o/b'', display = ''tmpl'', vcs = ''git''\<rparr>,
       \<lparr>path = ''/abc'', repo = ''https://github.com/o/a'', display = ''tmpl'', vcs = ''git''\<rparr>] ! 0
      \<noteq> \<lparr>path = ''/abc'', repo = ''https://github.com/o/a'', display = ''tmpl'', vcs = ''git''\<rparr>"
  by (simp add: InitHandler_def apply_config_def store_paths_def loop_body_def
      HasSuffix_def TrimSuffix_def pathConfigSet_find_def Search_def Search_loop.simps
      scan_loop.simps scan_step_def TrimPrefix_def HasPrefix_def)

section \<open>A document with an entry the loop rejects\<close>

text \<open>
  Such a document does not build, whatever the fetch gives; when the fetch and the parse
  succeed and the cache age is not negative, the error is that of the first rejected entry
  in the order of the loop.
\<close>

lemma InitHandler_invalid_entry:
  assumes "Body r = Some raw" and "unmarshal raw = Some c" and "(k, e) \<in> set (Paths c)"
    and "isl (loop_body k e)"
  shows "snd (InitHandler unmarshal (Some r) h) \<noteq> None"
proof -
  have rp: "\<And>h0. snd (range_Paths (Paths c) h0) \<noteq> None"
    by (rule range_Paths_invalid [OF assms(3,4)])
  have sp: "\<And>a h0. snd (store_paths a c h0) \<noteq> None"
  proof -
    fix a :: "64 word" and h0 :: Handler
    let ?h = "h0\<lparr>cacheControl := ''public, max-age='' @ decimal (nat (sint a))\<rparr>"
    obtain h2 x where x: "range_Paths (Paths c) ?h = (h2, x)"
      by (cases "range_Paths (Paths c) ?h")
    with rp [of ?h] have "x \<noteq> None" by simp
    with x show "snd (store_paths a c h0) \<noteq> None"
      by (auto simp: store_paths_def Let_def)
  qed
  have "snd (apply_config c h) \<noteq> None"
    using sp by (simp add: apply_config_def Let_def split: option.splits)
  then show ?thesis
    using assms(1,2) by (simp add: InitHandler_def)
qed

lemma InitHandler_first_invalid:
  assumes "Body r = Some raw" and "unmarshal raw = Some c" and "StatusCode r = 200"
    and "raw \<noteq> []" and "\<forall>a. CacheAge c = Some a \<longrightarrow> 0 \<le> sint a"
    and "Paths c = pre @ (k, e) # post"
    and "\<forall>(k', e') \<in> set pre. \<not> isl (loop_body k' e')"
    and "loop_body k e = Inl err"
  shows "snd (InitHandler unmarshal (Some r) h) = Some err"
proof -
  have rp: "\<And>h0. snd (range_Paths (Paths c) h0) = Some err"
    unfolding assms(6) by (rule range_Paths_first_invalid [OF assms(7,8)])
  have sp: "\<And>a h0. snd (store_paths a c h0) = Some err"
  proof -
    fix a :: "64 word" and h0 :: Handler
    let ?h = "h0\<lparr>cacheControl := ''public, max-age='' @ decimal (nat (sint a))\<rparr>"
    obtain h2 x where x: "range_Paths (Paths c) ?h = (h2, x)"
      by (cases "range_Paths (Paths c) ?h")
    with rp [of ?h] have "x = Some err" by simp
    with x show "snd (store_paths a c h0) = Some err"
      by (simp add: store_paths_def Let_def)
  qed
  have "snd (apply_config c h) = Some err"
  proof (cases "CacheAge c")
    case None
    then show ?thesis using sp by (simp add: apply_config_def Let_def)
  next
    case (Some a)
    with assms(5) have "\<not> sint a < 0" by (simp add: not_less)
    with Some show ?thesis using sp by (simp add: apply_config_def Let_def)
  qed
  then show ?thesis
    using assms(1-4) by (simp add: InitHandler_def)
qed

lemma InitHandler_accepts_all:
  assumes "Body r = Some raw" and "unmarshal raw = Some c" and "StatusCode r = 200"
    and "raw \<noteq> []" and "\<forall>a. CacheAge c = Some a \<longrightarrow> 0 \<le> sint a"
    and "\<forall>ke \<in> set (Paths c). \<not> isl (loop_body (fst ke) (snd ke))"
  shows "InitHandler unmarshal (Some r) h =
           (h\<lparr>host := Host c,
              cacheControl := ''public, max-age='' @ decimal (nat (sint
                (case CacheAge c of None \<Rightarrow> 86400 | Some a \<Rightarrow> a))),
              paths := sort_key path
                (paths h @ map (\<lambda>ke. projr (loop_body (fst ke) (snd ke))) (Paths c))\<rparr>, None)"
proof -
  have sp: "\<And>a h0. store_paths a c h0 =
      (h0\<lparr>cacheControl := ''public, max-age='' @ decimal (nat (sint a)),
          paths := sort_key path
            (paths h0 @ map (\<lambda>ke. projr (loop_body (fst ke) (snd ke))) (Paths c))\<rparr>, None)"
  proof -
    fix a :: "64 word" and h0 :: Handler
    show "store_paths a c h0 =
      (h0\<lparr>cacheControl := ''public, max-age='' @ decimal (nat (sint a)),
          paths := sort_key path
            (paths h0 @ map (\<lambda>ke. projr (loop_body (fst ke) (snd ke))) (Paths c))\<rparr>, None)"
      unfolding store_paths_def Let_def range_Paths_accepts_all [OF assms(6)]
      by simp
  qed
  have "apply_config c h =
           (h\<lparr>host := Host c,
              cacheControl := ''public, max-age='' @ decimal (nat (sint
                (case CacheAge c of None \<Rightarrow> 86400 | Some a \<Rightarrow> a))),
              paths := sort_key path
                (paths h @ map (\<lambda>ke. projr (loop_body (fst ke) (snd ke))) (Paths c))\<rparr>, None)"
  proof (cases "CacheAge c")
    case None
    then show ?thesis by (simp add: apply_config_def Let_def sp)
  next
    case (Some a)
    with assms(5) have "\<not> sint a < 0" by (simp add: not_less)
    with Some show ?thesis by (simp add: apply_config_def Let_def sp)
  qed
  then show ?thesis
    using assms(1-4) by (simp add: InitHandler_def)
qed

lemma loop_body_empty_repo:
  assumes "Repo e = []"
  shows "loop_body k e =
           (if VCS e = [] then Inl (CannotInferVCS k [])
            else if VCS e \<notin> set [''bzr'', ''git'', ''hg'', ''svn''] then Inl (UnknownVCS k (VCS e))
            else Inr \<lparr>path = TrimSuffix k ''/'', repo = [], display = Display e, vcs = VCS e\<rparr>)"
  using assms by (simp add: loop_body_def Let_def HasPrefix_def)

lemma loop_body_no_vcs:
  assumes "VCS e = []"
  shows "HasPrefix (Repo e) ''https://github.com/'' \<Longrightarrow>
           \<exists>pc. loop_body k e = Inr pc \<and> path pc = TrimSuffix k ''/'' \<and> repo pc = Repo e
                  \<and> vcs pc = ''git''"
    and "\<not> HasPrefix (Repo e) ''https://github.com/'' \<Longrightarrow>
           loop_body k e = Inl (CannotInferVCS k (Repo e))"
  using assms by (simp_all add: loop_body_def Let_def)

section \<open>A build that fails\<close>

text \<open>
  The loop body returns only the two VCS errors, so an error of the loop is a validation
  error and is not the negative cache age. Whatever a failing build has assigned or
  appended before it returns stays in the global.
\<close>

lemma loop_body_error:
  "loop_body k e = Inl err \<Longrightarrow> validation_error err \<and> err \<noteq> NegativeCacheAge"
  by (auto simp: loop_body_def Let_def split: if_splits)

lemma range_Paths_error:
  "range_Paths ps h = (h', Some err) \<Longrightarrow> validation_error err \<and> err \<noteq> NegativeCacheAge"
proof (induction ps arbitrary: h)
  case Nil
  then show ?case by simp
next
  case (Cons a ps)
  obtain k e where a: "a = (k, e)" by (cases a)
  show ?case
  proof (cases "loop_body k e")
    case (Inl err')
    with Cons.prems a have "err' = err" by simp
    with Inl show ?thesis using loop_body_error by blast
  next
    case (Inr pc)
    with Cons.prems a have "range_Paths ps (h\<lparr>paths := paths h @ [pc]\<rparr>) = (h', Some err)"
      by simp
    then show ?thesis by (rule Cons.IH)
  qed
qed

lemma store_paths_failed:
  assumes "store_paths a c h = (h', Some err)"
  shows "validation_error err \<and> err \<noteq> NegativeCacheAge \<and> host h' = host h
           \<and> (\<exists>new. paths h' = paths h @ new)"
proof -
  let ?h = "h\<lparr>cacheControl := ''public, max-age='' @ decimal (nat (sint a))\<rparr>"
  obtain h2 r where r: "range_Paths (Paths c) ?h = (h2, r)" by (cases "range_Paths (Paths c) ?h")
  with assms have rn: "r = Some err" and h': "h' = h2"
    by (auto simp: store_paths_def Let_def split: option.splits)
  from range_Paths_frame [OF r] obtain new where "h2 = ?h\<lparr>paths := paths ?h @ new\<rparr>"
    by blast
  then have "host h' = host h" and "paths h' = paths h @ new"
    by (simp_all add: h')
  moreover from range_Paths_error [OF r [unfolded rn]]
  have "validation_error err \<and> err \<noteq> NegativeCacheAge" .
  ultimately show ?thesis by blast
qed

lemma apply_config_failed:
  assumes "apply_config c h = (h', Some err)"
  shows "validation_error err \<and> host h' = Host c \<and> (\<exists>new. paths h' = paths h @ new)
           \<and> (err = NegativeCacheAge \<longrightarrow> cacheControl h' = cacheControl h \<and> paths h' = paths h)"
proof (cases "\<exists>a. CacheAge c = Some a \<and> sint a < 0")
  case True
  with assms have "h' = h\<lparr>host := Host c\<rparr>" and "err = NegativeCacheAge"
    by (auto simp: apply_config_def Let_def)
  then show ?thesis by simp
next
  case False
  with assms obtain a where "store_paths a c (h\<lparr>host := Host c\<rparr>) = (h', Some err)"
    by (auto simp: apply_config_def Let_def split: option.splits if_splits)
  from store_paths_failed [OF this] show ?thesis by simp
qed

lemma range_Paths_failed_exact:
  "range_Paths ps h = (h', Some err) \<Longrightarrow>
   \<exists>pre k e post pcs. ps = pre @ (k, e) # post \<and> loop_body k e = Inl err
      \<and> map (\<lambda>ke. loop_body (fst ke) (snd ke)) pre = map Inr pcs
      \<and> h' = h\<lparr>paths := paths h @ pcs\<rparr>"
proof (induction ps arbitrary: h)
  case Nil
  then show ?case by simp
next
  case (Cons a ps)
  obtain k0 e0 where a: "a = (k0, e0)" by (cases a)
  show ?case
  proof (cases "loop_body k0 e0")
    case (Inl err')
    with Cons.prems a have "err' = err" and "h' = h\<lparr>paths := paths h @ []\<rparr>" by simp_all
    with Inl a have "a # ps = [] @ (k0, e0) # ps \<and> loop_body k0 e0 = Inl err
        \<and> map (\<lambda>ke. loop_body (fst ke) (snd ke)) [] = map Inr []
        \<and> h' = h\<lparr>paths := paths h @ []\<rparr>"
      by simp
    then show ?thesis by blast
  next
    case (Inr pc)
    with Cons.prems a have "range_Paths ps (h\<lparr>paths := paths h @ [pc]\<rparr>) = (h', Some err)"
      by simp
    from Cons.IH [OF this] obtain pre k e post pcs
      where p: "ps = pre @ (k, e) # post" "loop_body k e = Inl err"
        "map (\<lambda>ke. loop_body (fst ke) (snd ke)) pre = map Inr pcs"
        "h' = h\<lparr>paths := paths h @ [pc]\<rparr>\<lparr>paths := paths (h\<lparr>paths := paths h @ [pc]\<rparr>) @ pcs\<rparr>"
      by blast
    from p Inr a have "a # ps = (a # pre) @ (k, e) # post \<and> loop_body k e = Inl err
        \<and> map (\<lambda>ke. loop_body (fst ke) (snd ke)) (a # pre) = map Inr (pc # pcs)
        \<and> h' = h\<lparr>paths := paths h @ (pc # pcs)\<rparr>"
      by simp
    then show ?thesis by blast
  qed
qed

lemma store_paths_failed_exact:
  assumes "store_paths a c h = (h', Some err)"
  shows "\<exists>pre k e post pcs. Paths c = pre @ (k, e) # post \<and> loop_body k e = Inl err
      \<and> map (\<lambda>ke. loop_body (fst ke) (snd ke)) pre = map Inr pcs
      \<and> h' = h\<lparr>cacheControl := ''public, max-age='' @ decimal (nat (sint a)),
                paths := paths h @ pcs\<rparr>"
proof -
  let ?h = "h\<lparr>cacheControl := ''public, max-age='' @ decimal (nat (sint a))\<rparr>"
  obtain h2 x where x: "range_Paths (Paths c) ?h = (h2, x)" by (cases "range_Paths (Paths c) ?h")
  with assms have xn: "x = Some err" and h': "h' = h2"
    by (auto simp: store_paths_def Let_def split: option.splits)
  from range_Paths_failed_exact [OF x [unfolded xn]] obtain pre k e post pcs
    where p: "Paths c = pre @ (k, e) # post" "loop_body k e = Inl err"
      "map (\<lambda>ke. loop_body (fst ke) (snd ke)) pre = map Inr pcs"
      "h2 = ?h\<lparr>paths := paths ?h @ pcs\<rparr>"
    by blast
  from p(4) have "h' = h\<lparr>cacheControl := ''public, max-age='' @ decimal (nat (sint a)),
                paths := paths h @ pcs\<rparr>"
    by (simp add: h')
  with p(1,2,3) show ?thesis by blast
qed

lemma apply_config_failed_exact:
  assumes "apply_config c h = (h', Some err)"
  shows "(err = NegativeCacheAge \<longrightarrow> h' = h\<lparr>host := Host c\<rparr>)
       \<and> (err \<noteq> NegativeCacheAge \<longrightarrow>
            (\<exists>pre k e post pcs. Paths c = pre @ (k, e) # post \<and> loop_body k e = Inl err
               \<and> map (\<lambda>ke. loop_body (fst ke) (snd ke)) pre = map Inr pcs
               \<and> h' = h\<lparr>host := Host c,
                    cacheControl := ''public, max-age='' @ decimal (nat (sint
                      (case CacheAge c of None \<Rightarrow> 86400 | Some a \<Rightarrow> a))),
                    paths := paths h @ pcs\<rparr>))"
proof (cases "\<exists>a. CacheAge c = Some a \<and> sint a < 0")
  case True
  with assms have "h' = h\<lparr>host := Host c\<rparr>" and "err = NegativeCacheAge"
    by (auto simp: apply_config_def Let_def)
  then show ?thesis by simp
next
  case False
  define a where "a = (case CacheAge c of None \<Rightarrow> 86400 | Some a \<Rightarrow> a)"
  from False assms have sp: "store_paths a c (h\<lparr>host := Host c\<rparr>) = (h', Some err)"
    by (auto simp: apply_config_def Let_def a_def split: option.splits if_splits)
  from store_paths_failed [OF sp] have ne: "err \<noteq> NegativeCacheAge" by simp
  from store_paths_failed_exact [OF sp] obtain pre k e post pcs
    where p: "Paths c = pre @ (k, e) # post" "loop_body k e = Inl err"
      "map (\<lambda>ke. loop_body (fst ke) (snd ke)) pre = map Inr pcs"
      "h' = h\<lparr>host := Host c\<rparr>\<lparr>cacheControl := ''public, max-age='' @ decimal (nat (sint a)),
                paths := paths (h\<lparr>host := Host c\<rparr>) @ pcs\<rparr>"
    by blast
  from p(4) have "h' = h\<lparr>host := Host c,
                    cacheControl := ''public, max-age='' @ decimal (nat (sint a)),
                    paths := paths h @ pcs\<rparr>"
    by simp
  with p(1,2,3) ne show ?thesis unfolding a_def by blast
qed

text \<open>
  Claim C4, as amended. A build attempt that returns an error of fetching, reading or
  parsing the document (fetch error, status other than 200, read error, empty document,
  parse error) leaves the handler exactly as it was. A build attempt that returns a
  validation error has written to the global handler in place, and the theorem gives the
  handler it leaves. On a negative cache age only the host has changed: it is the
  document's host. On an error of the loop, the loop visited a run of accepted entries
  and then the entry whose error is returned: the host is the document's host, the cache
  control is the new directive, and the entry set is the one stored before, in its order,
  followed by the entries the loop body built for that run, in the order of the loop and
  not sorted.
\<close>

theorem failed_build_state:
  assumes "InitHandler unmarshal res h = (h', Some err)"
  shows "(\<not> validation_error err \<longrightarrow> h' = h)
       \<and> (validation_error err \<longrightarrow>
            (\<exists>r raw c. res = Some r \<and> Body r = Some raw \<and> unmarshal raw = Some c
               \<and> (err = NegativeCacheAge \<longrightarrow> h' = h\<lparr>host := Host c\<rparr>)
               \<and> (err \<noteq> NegativeCacheAge \<longrightarrow>
                    (\<exists>pre k e post pcs. Paths c = pre @ (k, e) # post
                       \<and> loop_body k e = Inl err
                       \<and> map (\<lambda>ke. loop_body (fst ke) (snd ke)) pre = map Inr pcs
                       \<and> h' = h\<lparr>host := Host c,
                            cacheControl := ''public, max-age='' @ decimal (nat (sint
                              (case CacheAge c of None \<Rightarrow> 86400 | Some a \<Rightarrow> a))),
                            paths := paths h @ pcs\<rparr>))))"
proof (cases "\<exists>r raw c. res = Some r \<and> StatusCode r = 200 \<and> Body r = Some raw \<and> raw \<noteq> []
                 \<and> unmarshal raw = Some c")
  case True
  then obtain r raw c where ok: "res = Some r" "StatusCode r = 200" "Body r = Some raw"
      "raw \<noteq> []" "unmarshal raw = Some c"
    by blast
  with assms have ac: "apply_config c h = (h', Some err)"
    by (simp add: InitHandler_def)
  from apply_config_failed [OF ac] have v: "validation_error err" by simp
  note ex = apply_config_failed_exact [OF ac]
  from ok(1,3,5) ex
  have "\<exists>r raw c. res = Some r \<and> Body r = Some raw \<and> unmarshal raw = Some c
               \<and> (err = NegativeCacheAge \<longrightarrow> h' = h\<lparr>host := Host c\<rparr>)
               \<and> (err \<noteq> NegativeCacheAge \<longrightarrow>
                    (\<exists>pre k e post pcs. Paths c = pre @ (k, e) # post
                       \<and> loop_body k e = Inl err
                       \<and> map (\<lambda>ke. loop_body (fst ke) (snd ke)) pre = map Inr pcs
                       \<and> h' = h\<lparr>host := Host c,
                            cacheControl := ''public, max-age='' @ decimal (nat (sint
                              (case CacheAge c of None \<Rightarrow> 86400 | Some a \<Rightarrow> a))),
                            paths := paths h @ pcs\<rparr>))"
    by blast
  with v show ?thesis by blast
next
  case False
  with assms have "h' = h \<and> \<not> validation_error err"
    by (auto simp: InitHandler_def split: option.splits if_splits)
  then show ?thesis by blast
qed

theorem failed_build_state_witness:
  "InitHandler
     [''{host: b.example, paths: {/a: {repo: https://github.com/o/a, display: tmpl}, /b: {repo: https://example.org/b}}}'' \<mapsto>
        \<lparr>Host = ''b.example'', CacheAge = None, Paths =
          [(''/a'', \<lparr>Repo = ''https://github.com/o/a'', Display = ''tmpl'', VCS = []\<rparr>),
           (''/b'', \<lparr>Repo = ''https://example.org/b'', Display = [], VCS = []\<rparr>)]\<rparr>]
     (Some \<lparr>StatusCode = 200, Body = Some ''{host: b.example, paths: {/a: {repo: https://github.com/o/a, display: tmpl}, /b: {repo: https://example.org/b}}}''\<rparr>)
     \<lparr>host = ''a.example'', cacheControl = ''public, max-age=60'', paths =
        [\<lparr>path = ''/lib'', repo = ''https://github.com/o/lib'', display = ''tmpl'', vcs = ''git''\<rparr>]\<rparr>
   = (\<lparr>host = ''b.example'', cacheControl = ''public, max-age=86400'', paths =
        [\<lparr>path = ''/lib'', repo = ''https://github.com/o/lib'', display = ''tmpl'', vcs = ''git''\<rparr>,
         \<lparr>path = ''/a'', repo = ''https://github.com/o/a'', display = ''tmpl'', vcs = ''git''\<rparr>]\<rparr>,
      Some (CannotInferVCS ''/b'' ''https://example.org/b''))
   \<and> validation_error (CannotInferVCS ''/b'' ''https://example.org/b'')"
proof -
  let ?U = "[''{host: b.example, paths: {/a: {repo: https://github.com/o/a, display: tmpl}, /b: {repo: https://example.org/b}}}'' \<mapsto>
        \<lparr>Host = ''b.example'', CacheAge = None, Paths =
          [(''/a'', \<lparr>Repo = ''https://github.com/o/a'', Display = ''tmpl'', VCS = []\<rparr>),
           (''/b'', \<lparr>Repo = ''https://example.org/b'', Display = [], VCS = []\<rparr>)]\<rparr>]"
  let ?R = "Some \<lparr>StatusCode = 200, Body = Some ''{host: b.example, paths: {/a: {repo: https://github.com/o/a, display: tmpl}, /b: {repo: https://example.org/b}}}''\<rparr>"
  let ?h0 = "\<lparr>host = ''a.example'', cacheControl = ''public, max-age=60'', paths =
        [\<lparr>path = ''/lib'', repo = ''https://github.com/o/lib'', display = ''tmpl'', vcs = ''git''\<rparr>]\<rparr>"
  let ?h1 = "\<lparr>host = ''b.example'', cacheControl = ''public, max-age=86400'', paths =
        [\<lparr>path = ''/lib'', repo = ''https://github.com/o/lib'', display = ''tmpl'', vcs = ''git''\<rparr>,
         \<lparr>path = ''/a'', repo = ''https://github.com/o/a'', display = ''tmpl'', vcs = ''git''\<rparr>]\<rparr>"
  let ?E = "CannotInferVCS ''/b'' ''https://example.org/b''"
  have b: "InitHandler ?U ?R ?h0 = (?h1, Some ?E)"
    by (simp add: InitHandler_def apply_config_def store_paths_def loop_body_def
        HasPrefix_def HasSuffix_def TrimSuffix_def)
  have "\<not> validation_error ?E \<longrightarrow> ?h1 = ?h0"
    by (rule conjunct1 [OF failed_build_state [OF b]])
  moreover have "?h1 \<noteq> ?h0" by simp
  ultimately have "validation_error ?E" by blast
  with b show ?thesis by (rule conjI)
qed

text \<open>
  Claim C4 as stated fails: a document with a negative \<open>cache_max_age\<close> is rejected, but
  \<open>handler.host\<close> has been assigned before the check, so the handler that keeps serving
  answers under the rejected document's host.
\<close>

theorem failed_build_overwrites_host:
  "InitHandler
     [''{host: b.example, cache_max_age: -1}'' \<mapsto>
        \<lparr>Host = ''b.example'', CacheAge = Some (- 1), Paths = []\<rparr>]
     (Some \<lparr>StatusCode = 200, Body = Some ''{host: b.example, cache_max_age: -1}''\<rparr>)
     \<lparr>host = ''a.example'', cacheControl = ''public, max-age=60'', paths =
        [\<lparr>path = ''/lib'', repo = ''https://github.com/o/lib'', display = ''tmpl'', vcs = ''git''\<rparr>]\<rparr>
   = (\<lparr>host = ''b.example'', cacheControl = ''public, max-age=60'', paths =
        [\<lparr>path = ''/lib'', repo = ''https://github.com/o/lib'', display = ''tmpl'', vcs = ''git''\<rparr>]\<rparr>,
      Some NegativeCacheAge)
   \<and> \<lparr>host = ''b.example'', cacheControl = ''public, max-age=60'', paths =
        [\<lparr>path = ''/lib'', repo = ''https://github.com/o/lib'', display = ''tmpl'', vcs = ''git''\<rparr>]\<rparr>
     \<noteq> \<lparr>host = ''a.example'', cacheControl = ''public, max-age=60'', paths =
        [\<lparr>path = ''/lib'', repo = ''https://github.com/o/lib'', display = ''tmpl'', vcs = ''git''\<rparr>]\<rparr>"
  by (simp add: InitHandler_def apply_config_def)

section \<open>The slow path on entries without a trailing slash\<close>

text \<open>
  \<open>InitHandler\<close> stores every path without its trailing \<open>/\<close>. The fast path of \<open>find\<close>
  accounts for that: it tests for the stored path followed by \<open>/\<close> and cuts both off. The
  slow path tests \<open>TrimPrefix(path, ps.path)\<close> only, with no separator; its comment
  describes entries stored with a trailing \<open>/\<close> (\<open>"/"\<close>, \<open>"/abc/"\<close>, \<open>"/abc/def/"\<close>).
  The three evaluations below are on slices as \<open>InitHandler\<close> builds them.
\<close>

text \<open>
  Claim C1. With the single entry \<open>/abc\<close>, the request \<open>/abcd\<close> is resolved to that entry
  with subpath \<open>d\<close>, although \<open>/abc\<close> is not followed by \<open>/\<close> in the request: the binary
  search returns 1, the fast path fails on \<open>/abc/\<close>, and the slow path accepts the bare
  prefix.
\<close>

theorem slow_path_ignores_boundary:
  "pathConfigSet_find
     [\<lparr>path = ''/abc'', repo = ''https://github.com/o/abc'', display = ''tmpl'', vcs = ''git''\<rparr>]
     ''/abcd'' = (Some 0, ''d'')"
  by (simp add: pathConfigSet_find_def Search_def Search_loop.simps scan_loop.simps
      scan_step_def TrimPrefix_def HasPrefix_def)

text \<open>
  Claim C2. The entries of the slow path's own comment, stored without their trailing
  \<open>/\<close>: the request \<open>/abc/foo\<close> is resolved to the entry \<open>/abc\<close> with subpath \<open>/foo\<close>, the
  separator still in front, where the comment and the fast path give \<open>foo\<close>. The
  lexicographic predecessor of the request is \<open>/abc/def\<close>, so the fast path does not apply.
\<close>

theorem slow_path_keeps_separator:
  "pathConfigSet_find
     [\<lparr>path = [], repo = ''https://github.com/o/root'', display = ''tmpl'', vcs = ''git''\<rparr>,
      \<lparr>path = ''/abc'', repo = ''https://github.com/o/abc'', display = ''tmpl'', vcs = ''git''\<rparr>,
      \<lparr>path = ''/abc/def'', repo = ''https://github.com/o/def'', display = ''tmpl'', vcs = ''git''\<rparr>,
      \<lparr>path = ''/xyz'', repo = ''https://github.com/o/xyz'', display = ''tmpl'', vcs = ''git''\<rparr>]
     ''/abc/foo'' = (Some 1, ''/foo'')"
  by (simp add: pathConfigSet_find_def Search_def Search_loop.simps scan_loop.simps
      scan_step_def TrimPrefix_def HasPrefix_def)

text \<open>
  Claim C3. With the entries \<open>/a\<close> and \<open>/a/b\<close>, the request \<open>/a/bc/d\<close> is resolved to
  \<open>/a/b\<close> with subpath \<open>c/d\<close>: the longest bare prefix wins, although the only entry
  followed by a \<open>/\<close> in the request is \<open>/a\<close>. With the entries of the comment, the
  request \<open>/x\<close> finds no entry at all, although the root entry (stored as the empty
  path) is followed by \<open>/\<close> in it and the comment names it as the result.
\<close>

theorem slow_path_prefers_non_ancestor:
  "pathConfigSet_find
     [\<lparr>path = ''/a'', repo = ''https://github.com/o/a'', display = ''tmpl'', vcs = ''git''\<rparr>,
      \<lparr>path = ''/a/b'', repo = ''https://github.com/o/b'', display = ''tmpl'', vcs = ''git''\<rparr>]
     ''/a/bc/d'' = (Some 1, ''c/d'')
   \<and> pathConfigSet_find
     [\<lparr>path = [], repo = ''https://github.com/o/root'', display = ''tmpl'', vcs = ''git''\<rparr>,
      \<lparr>path = ''/abc'', repo = ''https://github.com/o/abc'', display = ''tmpl'', vcs = ''git''\<rparr>,
      \<lparr>path = ''/abc/def'', repo = ''https://github.com/o/def'', display = ''tmpl'', vcs = ''git''\<rparr>,
      \<lparr>path = ''/xyz'', repo = ''https://github.com/o/xyz'', display = ''tmpl'', vcs = ''git''\<rparr>]
     ''/x'' = (None, [])"
  by (simp add: pathConfigSet_find_def Search_def Search_loop.simps scan_loop.simps
      scan_step_def TrimPrefix_def HasPrefix_def)

section \<open>Validation of the entries\<close>

text \<open>
  Claim C5, as amended. The loop body never tests \<open>repo\<close> by itself; what it does with an
  entry whose \<open>repo\<close> is empty depends on the entry's \<open>vcs\<close> alone. If \<open>vcs\<close> is not given
  or is none of \<open>bzr\<close>, \<open>git\<close>, \<open>hg\<close>, \<open>svn\<close>, the body rejects the entry and \<open>InitHandler\<close>
  returns an error for every document that holds it; the error is that of this entry,
  citing its key (the VCS cannot be inferred when \<open>vcs\<close> is not given, unknown VCS
  otherwise), when the document was fetched and parsed, its cache age is not negative and
  every entry the loop visits before this one is accepted. If \<open>vcs\<close> is one of the four
  names, the body accepts the entry with its empty repo and its display as given, and a
  fetched and parsed document with a cache age that is not negative, all of whose entries
  are accepted, builds with this entry stored under its trimmed key.
\<close>

theorem empty_repo_entry:
  assumes "Body r = Some raw" and "unmarshal raw = Some c" and "(k, e) \<in> set (Paths c)"
    and "Repo e = []"
  shows "loop_body k e =
           (if VCS e = [] then Inl (CannotInferVCS k [])
            else if VCS e \<notin> set [''bzr'', ''git'', ''hg'', ''svn''] then Inl (UnknownVCS k (VCS e))
            else Inr \<lparr>path = TrimSuffix k ''/'', repo = [], display = Display e, vcs = VCS e\<rparr>)
       \<and> (VCS e \<notin> set [''bzr'', ''git'', ''hg'', ''svn''] \<longrightarrow>
            snd (InitHandler unmarshal (Some r) h) \<noteq> None
            \<and> (StatusCode r = 200 \<and> raw \<noteq> [] \<and> (\<forall>a. CacheAge c = Some a \<longrightarrow> 0 \<le> sint a)
                 \<and> (\<exists>pre post. Paths c = pre @ (k, e) # post
                       \<and> (\<forall>(k', e') \<in> set pre. \<not> isl (loop_body k' e')))
               \<longrightarrow> snd (InitHandler unmarshal (Some r) h) =
                     Some (if VCS e = [] then CannotInferVCS k [] else UnknownVCS k (VCS e))))
       \<and> (VCS e \<in> set [''bzr'', ''git'', ''hg'', ''svn''] \<and> StatusCode r = 200 \<and> raw \<noteq> []
            \<and> (\<forall>a. CacheAge c = Some a \<longrightarrow> 0 \<le> sint a)
            \<and> (\<forall>ke \<in> set (Paths c). \<not> isl (loop_body (fst ke) (snd ke)))
          \<longrightarrow> snd (InitHandler unmarshal (Some r) h) = None
              \<and> \<lparr>path = TrimSuffix k ''/'', repo = [], display = Display e, vcs = VCS e\<rparr>
                    \<in> set (paths (fst (InitHandler unmarshal (Some r) h))))"
proof (intro conjI impI)
  show lb: "loop_body k e =
           (if VCS e = [] then Inl (CannotInferVCS k [])
            else if VCS e \<notin> set [''bzr'', ''git'', ''hg'', ''svn''] then Inl (UnknownVCS k (VCS e))
            else Inr \<lparr>path = TrimSuffix k ''/'', repo = [], display = Display e, vcs = VCS e\<rparr>)"
    by (rule loop_body_empty_repo [OF assms(4)])
  {
    assume n: "VCS e \<notin> set [''bzr'', ''git'', ''hg'', ''svn'']"
    with lb have le: "loop_body k e =
        Inl (if VCS e = [] then CannotInferVCS k [] else UnknownVCS k (VCS e))"
      by simp
    then have "isl (loop_body k e)" by simp
    from InitHandler_invalid_entry [where unmarshal = unmarshal, OF assms(1,2,3) this]
    show "snd (InitHandler unmarshal (Some r) h) \<noteq> None" .
    assume a: "StatusCode r = 200 \<and> raw \<noteq> [] \<and> (\<forall>a. CacheAge c = Some a \<longrightarrow> 0 \<le> sint a)
                 \<and> (\<exists>pre post. Paths c = pre @ (k, e) # post
                       \<and> (\<forall>(k', e') \<in> set pre. \<not> isl (loop_body k' e')))"
    then obtain pre post where p: "Paths c = pre @ (k, e) # post"
        "\<forall>(k', e') \<in> set pre. \<not> isl (loop_body k' e')"
      by blast
    from a have s: "StatusCode r = 200" "raw \<noteq> []" "\<forall>a. CacheAge c = Some a \<longrightarrow> 0 \<le> sint a"
      by blast+
    show "snd (InitHandler unmarshal (Some r) h) =
            Some (if VCS e = [] then CannotInferVCS k [] else UnknownVCS k (VCS e))"
      by (rule InitHandler_first_invalid [where unmarshal = unmarshal, OF assms(1,2) s p le])
  }
  {
    assume a: "VCS e \<in> set [''bzr'', ''git'', ''hg'', ''svn''] \<and> StatusCode r = 200 \<and> raw \<noteq> []
            \<and> (\<forall>a. CacheAge c = Some a \<longrightarrow> 0 \<le> sint a)
            \<and> (\<forall>ke \<in> set (Paths c). \<not> isl (loop_body (fst ke) (snd ke)))"
    then have v: "VCS e \<in> set [''bzr'', ''git'', ''hg'', ''svn'']"
      and s: "StatusCode r = 200" "raw \<noteq> []" "\<forall>a. CacheAge c = Some a \<longrightarrow> 0 \<le> sint a"
        "\<forall>ke \<in> set (Paths c). \<not> isl (loop_body (fst ke) (snd ke))"
      by blast+
    note ok = InitHandler_accepts_all [where unmarshal = unmarshal, OF assms(1,2) s, of h]
    show "snd (InitHandler unmarshal (Some r) h) = None"
      by (simp add: ok)
    from v lb have pc: "loop_body k e =
        Inr \<lparr>path = TrimSuffix k ''/'', repo = [], display = Display e, vcs = VCS e\<rparr>"
      by auto
    have "projr (loop_body (fst (k, e)) (snd (k, e)))
            \<in> (\<lambda>ke. projr (loop_body (fst ke) (snd ke))) ` set (Paths c)"
      by (rule imageI [OF assms(3)])
    with pc have "\<lparr>path = TrimSuffix k ''/'', repo = [], display = Display e, vcs = VCS e\<rparr>
            \<in> (\<lambda>ke. projr (loop_body (fst ke) (snd ke))) ` set (Paths c)"
      by simp
    then show "\<lparr>path = TrimSuffix k ''/'', repo = [], display = Display e, vcs = VCS e\<rparr>
                    \<in> set (paths (fst (InitHandler unmarshal (Some r) h)))"
      by (simp add: ok)
  }
qed

theorem empty_repo_entry_witness:
  "snd (InitHandler
     [''{paths: {/x: {vcs: cvs, display: tmpl}}}'' \<mapsto>
        \<lparr>Host = [], CacheAge = None, Paths =
          [(''/x'', \<lparr>Repo = [], Display = ''tmpl'', VCS = ''cvs''\<rparr>)]\<rparr>]
     (Some \<lparr>StatusCode = 200, Body = Some ''{paths: {/x: {vcs: cvs, display: tmpl}}}''\<rparr>)
     \<lparr>host = [], cacheControl = [], paths = []\<rparr>)
   = Some (UnknownVCS ''/x'' ''cvs'')"
proof -
  let ?e = "\<lparr>Repo = [], Display = ''tmpl'', VCS = ''cvs''\<rparr>"
  let ?c = "\<lparr>Host = [], CacheAge = None, Paths = [(''/x'', ?e)]\<rparr>"
  let ?raw = "''{paths: {/x: {vcs: cvs, display: tmpl}}}''"
  let ?r = "\<lparr>StatusCode = 200, Body = Some ?raw\<rparr>"
  let ?h0 = "\<lparr>host = [], cacheControl = [], paths = []\<rparr>"
  have p: "Body ?r = Some ?raw" "[?raw \<mapsto> ?c] ?raw = Some ?c" "(''/x'', ?e) \<in> set (Paths ?c)"
    "Repo ?e = []"
    by simp_all
  note t = empty_repo_entry [where unmarshal = "[?raw \<mapsto> ?c]", OF p, of ?h0]
  have n: "VCS ?e \<notin> set [''bzr'', ''git'', ''hg'', ''svn'']" by simp
  have first: "\<exists>pre post. Paths ?c = pre @ (''/x'', ?e) # post
                 \<and> (\<forall>(k', e') \<in> set pre. \<not> isl (loop_body k' e'))"
    by (rule exI [of _ "[]"]) simp
  have ok: "StatusCode ?r = 200 \<and> ?raw \<noteq> [] \<and> (\<forall>a. CacheAge ?c = Some a \<longrightarrow> 0 \<le> sint a)
              \<and> (\<exists>pre post. Paths ?c = pre @ (''/x'', ?e) # post
                    \<and> (\<forall>(k', e') \<in> set pre. \<not> isl (loop_body k' e')))"
    using first by simp
  from conjunct1 [OF conjunct2 [OF t]] n
  have "snd (InitHandler [?raw \<mapsto> ?c] (Some ?r) ?h0) \<noteq> None
          \<and> (StatusCode ?r = 200 \<and> ?raw \<noteq> [] \<and> (\<forall>a. CacheAge ?c = Some a \<longrightarrow> 0 \<le> sint a)
              \<and> (\<exists>pre post. Paths ?c = pre @ (''/x'', ?e) # post
                    \<and> (\<forall>(k', e') \<in> set pre. \<not> isl (loop_body k' e')))
             \<longrightarrow> snd (InitHandler [?raw \<mapsto> ?c] (Some ?r) ?h0) =
                   Some (if VCS ?e = [] then CannotInferVCS ''/x'' [] else UnknownVCS ''/x'' (VCS ?e)))"
    by (rule mp)
  from mp [OF conjunct2 [OF this] ok] show ?thesis by simp
qed

text \<open>
  Claim C5 as stated fails: an entry with an empty \<open>repo\<close> and the explicit \<open>vcs: git\<close> is
  accepted and stored with the empty repo; the build succeeds.
\<close>

theorem empty_repo_with_vcs_accepted:
  "InitHandler
     [''{paths: {/x: {vcs: git, display: tmpl}}}'' \<mapsto>
        \<lparr>Host = [], CacheAge = None, Paths =
          [(''/x'', \<lparr>Repo = [], Display = ''tmpl'', VCS = ''git''\<rparr>)]\<rparr>]
     (Some \<lparr>StatusCode = 200, Body = Some ''{paths: {/x: {vcs: git, display: tmpl}}}''\<rparr>)
     \<lparr>host = [], cacheControl = [], paths = []\<rparr>
   = (\<lparr>host = [], cacheControl = ''public, max-age=86400'', paths =
        [\<lparr>path = ''/x'', repo = [], display = ''tmpl'', vcs = ''git''\<rparr>]\<rparr>, None)"
  by (simp add: InitHandler_def apply_config_def store_paths_def loop_body_def
      HasPrefix_def HasSuffix_def TrimSuffix_def)

text \<open>
  Claim C6, as amended. For an entry with no \<open>vcs\<close> field the loop body infers \<open>git\<close>
  exactly when the repo URL starts with \<open>https://github.com/\<close>, and stores the entry under
  its trimmed key. For every other repo URL, the Bitbucket URLs that the display
  inference recognises included, the body returns the error that the VCS cannot be
  inferred, and no document that holds such an entry builds.
\<close>

theorem vcs_inferred_for_github_only:
  assumes "VCS e = []"
  shows "(HasPrefix (Repo e) ''https://github.com/'' \<longrightarrow>
            (\<exists>pc. loop_body k e = Inr pc \<and> path pc = TrimSuffix k ''/'' \<and> repo pc = Repo e
                   \<and> vcs pc = ''git''))
       \<and> (\<not> HasPrefix (Repo e) ''https://github.com/'' \<longrightarrow>
            loop_body k e = Inl (CannotInferVCS k (Repo e))
            \<and> (\<forall>unmarshal r raw c h.
                  Body r = Some raw \<and> unmarshal raw = Some c \<and> (k, e) \<in> set (Paths c)
                  \<longrightarrow> snd (InitHandler unmarshal (Some r) h) \<noteq> None))"
proof (intro conjI impI allI)
  assume "HasPrefix (Repo e) ''https://github.com/''"
  then show "\<exists>pc. loop_body k e = Inr pc \<and> path pc = TrimSuffix k ''/'' \<and> repo pc = Repo e
                   \<and> vcs pc = ''git''"
    by (rule loop_body_no_vcs(1) [OF assms])
next
  assume "\<not> HasPrefix (Repo e) ''https://github.com/''"
  then show "loop_body k e = Inl (CannotInferVCS k (Repo e))"
    by (rule loop_body_no_vcs(2) [OF assms])
next
  fix unmarshal :: "string \<rightharpoonup> config" and r :: fetched and raw :: string
    and c :: config and h :: Handler
  assume n: "\<not> HasPrefix (Repo e) ''https://github.com/''"
    and a: "Body r = Some raw \<and> unmarshal raw = Some c \<and> (k, e) \<in> set (Paths c)"
  from loop_body_no_vcs(2) [OF assms n] have "isl (loop_body k e)" by simp
  moreover from a have "Body r = Some raw" "unmarshal raw = Some c" "(k, e) \<in> set (Paths c)"
    by blast+
  ultimately show "snd (InitHandler unmarshal (Some r) h) \<noteq> None"
    using InitHandler_invalid_entry [where unmarshal = unmarshal and r = r and raw = raw
        and c = c and k = k and e = e and h = h]
    by blast
qed

theorem vcs_inferred_for_github_only_witness:
  "(\<exists>pc. loop_body ''/x/'' \<lparr>Repo = ''https://github.com/org/x'', Display = [], VCS = []\<rparr> = Inr pc
        \<and> path pc = ''/x'' \<and> repo pc = ''https://github.com/org/x'' \<and> vcs pc = ''git'')
   \<and> loop_body ''/y'' \<lparr>Repo = ''https://gitlab.com/org/y'', Display = [], VCS = []\<rparr>
       = Inl (CannotInferVCS ''/y'' ''https://gitlab.com/org/y'')"
  using vcs_inferred_for_github_only
      [of "\<lparr>Repo = ''https://github.com/org/x'', Display = [], VCS = []\<rparr>" "''/x/''"]
    vcs_inferred_for_github_only
      [of "\<lparr>Repo = ''https://gitlab.com/org/y'', Display = [], VCS = []\<rparr>" "''/y''"]
  by (simp add: HasPrefix_def HasSuffix_def TrimSuffix_def)

text \<open>
  Claim C6 as stated fails: for a Bitbucket URL the display inference has a case, the VCS
  inference has none, and the build of a document with such an entry and no \<open>vcs\<close> returns
  the error that the VCS cannot be inferred.
\<close>

theorem bitbucket_vcs_not_inferred:
  "InitHandler
     [''{paths: {/y: {repo: https://bitbucket.org/org/y}}}'' \<mapsto>
        \<lparr>Host = [], CacheAge = None, Paths =
          [(''/y'', \<lparr>Repo = ''https://bitbucket.org/org/y'', Display = [], VCS = []\<rparr>)]\<rparr>]
     (Some \<lparr>StatusCode = 200, Body = Some ''{paths: {/y: {repo: https://bitbucket.org/org/y}}}''\<rparr>)
     \<lparr>host = [], cacheControl = [], paths = []\<rparr>
   = (\<lparr>host = [], cacheControl = ''public, max-age=86400'', paths = []\<rparr>,
      Some (CannotInferVCS ''/y'' ''https://bitbucket.org/org/y''))"
  by (simp add: InitHandler_def apply_config_def store_paths_def loop_body_def
      HasPrefix_def HasSuffix_def TrimSuffix_def)

section \<open>The stored entry set\<close>

text \<open>
  Claim C7, as amended. After a successful build the stored paths are sorted ascending.
  They are pairwise distinct exactly when the paths stored before the build together with
  the keys of the document, each without one trailing \<open>/\<close>, are pairwise distinct: the
  build neither rejects nor merges keys that differ only by a trailing \<open>/\<close>, and it does
  not clear the entries of an earlier build.
\<close>

theorem build_sorted_distinct_iff:
  assumes "InitHandler unmarshal (Some r) h = (h', None)" and "Body r = Some raw"
    and "unmarshal raw = Some c"
  shows "sorted (map path (paths h'))
       \<and> (distinct (map path (paths h')) \<longleftrightarrow>
            distinct (map path (paths h) @ map (\<lambda>ke. TrimSuffix (fst ke) ''/'') (Paths c)))"
proof -
  from InitHandler_ok [OF assms(1)] assms(2,3) obtain a
    where sp: "store_paths a c (h\<lparr>host := Host c\<rparr>) = (h', None)"
    by auto
  from store_paths_ok(1) [OF sp] store_paths_ok(2) [OF sp] show ?thesis
    by simp
qed

theorem build_sorted_distinct_iff_witness:
  "InitHandler
     [''{paths: {/b: {repo: https://github.com/o/b, display: tmpl}, /a/: {repo: https://github.com/o/a, display: tmpl}}}'' \<mapsto>
        \<lparr>Host = [], CacheAge = None, Paths =
          [(''/b'', \<lparr>Repo = ''https://github.com/o/b'', Display = ''tmpl'', VCS = []\<rparr>),
           (''/a/'', \<lparr>Repo = ''https://github.com/o/a'', Display = ''tmpl'', VCS = []\<rparr>)]\<rparr>]
     (Some \<lparr>StatusCode = 200, Body = Some ''{paths: {/b: {repo: https://github.com/o/b, display: tmpl}, /a/: {repo: https://github.com/o/a, display: tmpl}}}''\<rparr>)
     \<lparr>host = [], cacheControl = [], paths = []\<rparr>
   = (\<lparr>host = [], cacheControl = ''public, max-age=86400'', paths =
        [\<lparr>path = ''/a'', repo = ''https://github.com/o/a'', display = ''tmpl'', vcs = ''git''\<rparr>,
         \<lparr>path = ''/b'', repo = ''https://github.com/o/b'', display = ''tmpl'', vcs = ''git''\<rparr>]\<rparr>, None)
   \<and> sorted [''/a'', ''/b''] \<and> distinct [''/a'', ''/b'']"
proof -
  let ?raw = "''{paths: {/b: {repo: https://github.com/o/b, display: tmpl}, /a/: {repo: https://github.com/o/a, display: tmpl}}}''"
  let ?c = "\<lparr>Host = [], CacheAge = None, Paths =
          [(''/b'', \<lparr>Repo = ''https://github.com/o/b'', Display = ''tmpl'', VCS = []\<rparr>),
           (''/a/'', \<lparr>Repo = ''https://github.com/o/a'', Display = ''tmpl'', VCS = []\<rparr>)]\<rparr>"
  let ?r = "\<lparr>StatusCode = 200, Body = Some ?raw\<rparr>"
  let ?S = "\<lparr>host = [], cacheControl = ''public, max-age=86400'', paths =
        [\<lparr>path = ''/a'', repo = ''https://github.com/o/a'', display = ''tmpl'', vcs = ''git''\<rparr>,
         \<lparr>path = ''/b'', repo = ''https://github.com/o/b'', display = ''tmpl'', vcs = ''git''\<rparr>]\<rparr>"
  have b: "InitHandler [?raw \<mapsto> ?c] (Some ?r) \<lparr>host = [], cacheControl = [], paths = []\<rparr>
             = (?S, None)"
    by (simp add: InitHandler_def apply_config_def store_paths_def loop_body_def
        HasPrefix_def HasSuffix_def TrimSuffix_def)
  have "Body ?r = Some ?raw" "[?raw \<mapsto> ?c] ?raw = Some ?c" by simp_all
  from build_sorted_distinct_iff [where unmarshal = "[?raw \<mapsto> ?c]", OF b this]
  have "sorted (map path (paths ?S)) \<and> distinct (map path (paths ?S))"
    by (simp add: HasSuffix_def TrimSuffix_def)
  with b show ?thesis by simp
qed

text \<open>
  Claim C7 as stated fails: the keys \<open>/abc/\<close> and \<open>/abc\<close> are two keys of the map, both
  entries are accepted, and the built slice holds the path \<open>/abc\<close> twice.
\<close>

theorem build_keeps_duplicate_paths:
  "InitHandler
     [''{paths: {/abc/: {repo: https://github.com/o/b, display: tmpl}, /abc: {repo: https://github.com/o/a, display: tmpl}}}'' \<mapsto>
        \<lparr>Host = [], CacheAge = None, Paths =
          [(''/abc/'', \<lparr>Repo = ''https://github.com/o/b'', Display = ''tmpl'', VCS = []\<rparr>),
           (''/abc'', \<lparr>Repo = ''https://github.com/o/a'', Display = ''tmpl'', VCS = []\<rparr>)]\<rparr>]
     (Some \<lparr>StatusCode = 200, Body = Some ''{paths: {/abc/: {repo: https://github.com/o/b, display: tmpl}, /abc: {repo: https://github.com/o/a, display: tmpl}}}''\<rparr>)
     \<lparr>host = [], cacheControl = [], paths = []\<rparr>
   = (\<lparr>host = [], cacheControl = ''public, max-age=86400'', paths =
        [\<lparr>path = ''/abc'', repo = ''https://github.com/o/b'', display = ''tmpl'', vcs = ''git''\<rparr>,
         \<lparr>path = ''/abc'', repo = ''https://github.com/o/a'', display = ''tmpl'', vcs = ''git''\<rparr>]\<rparr>, None)
   \<and> \<not> distinct [''/abc'', ''/abc'']"
  by (simp add: InitHandler_def apply_config_def store_paths_def loop_body_def
      HasPrefix_def HasSuffix_def TrimSuffix_def)

section \<open>No match\<close>

text \<open>
  The dispatch of \<open>HandleImport\<close> on the result of \<open>find\<close>: when \<open>find\<close> returns no entry,
  the handler serves the index if and only if the request path is \<open>/\<close>, and answers
  not-found otherwise. The index lists every stored path behind the host override, or
  behind the host of the request when no override is configured.
\<close>

lemma no_match_dispatch:
  assumes "fst (pathConfigSet_find (paths h) (URL_Path r)) = None"
  shows "HandleImport h r =
           (if URL_Path r = ''/''
            then Index (if host h = [] then Host_header r else host h)
                   (map (\<lambda>pc. (if host h = [] then Host_header r else host h) @ path pc) (paths h))
            else NotFound)"
proof -
  obtain pc subpath where f: "pathConfigSet_find (paths h) (URL_Path r) = (pc, subpath)"
    by (cases "pathConfigSet_find (paths h) (URL_Path r)")
  with assms have "pc = None" by simp
  with f show ?thesis
    by (simp add: HandleImport_def serveIndex_def Handler_Host_def Let_def)
qed

text \<open>
  Claim C9. With the single entry \<open>/abc\<close>, the request \<open>/abcd\<close> matches no entry: \<open>/abc\<close> is
  not followed by \<open>/\<close> in it. The handler does not answer not-found: the slow path of
  \<open>find\<close> returns the entry, and the handler serves the page of \<open>/abc\<close>.
\<close>

theorem unmatched_request_served:
  "HandleImport
     \<lparr>host = ''go.example.com'', cacheControl = ''public, max-age=86400'', paths =
        [\<lparr>path = ''/abc'', repo = ''https://github.com/o/abc'', display = ''tmpl'', vcs = ''git''\<rparr>]\<rparr>
     \<lparr>URL_Path = ''/abcd'', Host_header = ''localhost:8080''\<rparr>
   = Vanity ''public, max-age=86400''
       \<lparr>Import = ''go.example.com/abc'', Subpath = ''d'', vRepo = ''https://github.com/o/abc'',
        vDisplay = ''tmpl'', vVCS = ''git''\<rparr>"
  by (simp add: HandleImport_def Handler_Host_def pathConfigSet_find_def Search_def
      Search_loop.simps scan_loop.simps scan_step_def TrimPrefix_def HasPrefix_def)

section \<open>Requests with a trailing slash\<close>

text \<open>
  After a successful build, for every stored entry whose path is not empty, the request
  made of that path and one trailing \<open>/\<close> is resolved to some entry.
\<close>

lemma trailing_slash_matches:
  assumes "InitHandler unmarshal res h = (h', None)" and "pc \<in> set (paths h')"
    and "path pc \<noteq> []"
  shows "fst (pathConfigSet_find (paths h') (path pc @ ''/'')) \<noteq> None"
proof -
  from assms(2) obtain k where k: "k < length (paths h')" "paths h' ! k = pc"
    by (auto simp: in_set_conv_nth)
  have "sorted (map path (paths h'))" by (rule InitHandler_sorted [OF assms(1)])
  from trailing_slash_sorted [OF this k(1)] assms(3) k(2) show ?thesis
    by simp
qed

text \<open>
  Claim C10. The key \<open>/\<close> is stored as the empty path. With a second stored path that
  sorts between the empty string and \<open>/\<close> (here \<open>-x\<close>), the request made of the root entry's
  path and one trailing \<open>/\<close>, that is \<open>/\<close>, finds no entry: the binary search returns 2, the
  fast path tests \<open>-x/\<close>, and the slow path never selects the empty path, its \<open>TrimPrefix\<close>
  result being as long as the request.
\<close>

theorem root_trailing_slash_unmatched:
  "InitHandler
     [''{paths: {/: {repo: https://github.com/o/root, display: tmpl}, -x: {repo: https://github.com/o/x, display: tmpl}}}'' \<mapsto>
        \<lparr>Host = [], CacheAge = None, Paths =
          [(''/'', \<lparr>Repo = ''https://github.com/o/root'', Display = ''tmpl'', VCS = []\<rparr>),
           (''-x'', \<lparr>Repo = ''https://github.com/o/x'', Display = ''tmpl'', VCS = []\<rparr>)]\<rparr>]
     (Some \<lparr>StatusCode = 200, Body = Some ''{paths: {/: {repo: https://github.com/o/root, display: tmpl}, -x: {repo: https://github.com/o/x, display: tmpl}}}''\<rparr>)
     \<lparr>host = [], cacheControl = [], paths = []\<rparr>
   = (\<lparr>host = [], cacheControl = ''public, max-age=86400'', paths =
        [\<lparr>path = [], repo = ''https://github.com/o/root'', display = ''tmpl'', vcs = ''git''\<rparr>,
         \<lparr>path = ''-x'', repo = ''https://github.com/o/x'', display = ''tmpl'', vcs = ''git''\<rparr>]\<rparr>, None)
   \<and> pathConfigSet_find
        [\<lparr>path = [], repo = ''https://github.com/o/root'', display = ''tmpl'', vcs = ''git''\<rparr>,
         \<lparr>path = ''-x'', repo = ''https://github.com/o/x'', display = ''tmpl'', vcs = ''git''\<rparr>]
        ([] @ ''/'') = (None, [])"
  by (simp add: InitHandler_def apply_config_def store_paths_def loop_body_def
      HasSuffix_def TrimSuffix_def pathConfigSet_find_def Search_def Search_loop.simps
      scan_loop.simps scan_step_def TrimPrefix_def HasPrefix_def)

end
